theory Spec2Isabelle
  imports Complex_Main
begin

section \<open>The MIDI source as the encoder sees it\<close>

text \<open>
  \<^verbatim>\<open>tools/midi_to_txt.py\<close> reads a MIDI file through the \<^verbatim>\<open>mido\<close> library and uses
  four attributes of a message (\<^verbatim>\<open>type\<close>, \<^verbatim>\<open>time\<close>, \<^verbatim>\<open>note\<close>, \<^verbatim>\<open>velocity\<close>) and two of
  the file (\<^verbatim>\<open>ticks_per_beat\<close>, \<^verbatim>\<open>tracks\<close>); the selector \<open>note_of\<close> stands for
  \<^verbatim>\<open>msg.note\<close>. Python integers are unbounded, so every number is an \<^typ>\<open>int\<close>.
  The attributes \<^verbatim>\<open>note\<close> and \<^verbatim>\<open>velocity\<close> are read only on note messages; a message
  of any other type carries them here without being asked for them.
\<close>

datatype msg_type = note_on | note_off | other

datatype msg = Msg (type: msg_type) (time: int) (note_of: int) (velocity: int)

record midi_file =
  ticks_per_beat :: int
  tracks :: "msg list list"

datatype error = ZeroDivisionError | IndexError

text \<open>What a run leaves behind: the message printed, or the text written to the file.\<close>

datatype outcome = NoNotesFound | Written string

definition bind_err :: "error + 'a \<Rightarrow> ('a \<Rightarrow> error + 'b) \<Rightarrow> error + 'b" where
  "bind_err r f = (case r of Inl e \<Rightarrow> Inl e | Inr x \<Rightarrow> f x)"

text \<open>Python's \<^verbatim>\<open>a // b\<close> on integers: floor division, raising on a zero divisor.\<close>

definition floordiv :: "int \<Rightarrow> int \<Rightarrow> error + int" where
  "floordiv a b = (if b = 0 then Inl ZeroDivisionError else Inr (a div b))"

section \<open>Event pairing (lines 24 to 36)\<close>

text \<open>
  An interval is the tuple \<^verbatim>\<open>(start_tick, end_tick, note)\<close> appended to \<^verbatim>\<open>notes\<close>.
  The dictionary \<^verbatim>\<open>active\<close> and the list \<^verbatim>\<open>notes\<close> are created once, before the loop
  over the tracks; \<^verbatim>\<open>abs_time\<close> is reset at the start of every track.
\<close>

type_synonym interval = "int \<times> int \<times> int"

type_synonym pending = "int \<rightharpoonup> int"

text \<open>The body of the inner loop, on the state \<^verbatim>\<open>(abs_time, active, notes)\<close>.\<close>

fun process_msg :: "msg \<Rightarrow> int \<times> pending \<times> interval list \<Rightarrow> int \<times> pending \<times> interval list" where
  "process_msg m (t, active, notes) =
     (let abs_time = t + time m in
      if type m = note_on \<and> velocity m > 0 then
        (abs_time, active(note_of m \<mapsto> abs_time), notes)
      else if type m = note_off \<or> (type m = note_on \<and> velocity m = 0) then
        (case active (note_of m) of
           Some start \<Rightarrow> (abs_time, active(note_of m := None), notes @ [(start, abs_time, note_of m)])
         | None \<Rightarrow> (abs_time, active, notes))
      else (abs_time, active, notes))"

text \<open>One track: \<^verbatim>\<open>abs_time = 0\<close>, then every message in file order.\<close>

definition process_track :: "msg list \<Rightarrow> pending \<times> interval list \<Rightarrow> pending \<times> interval list" where
  "process_track track st = snd (fold process_msg track (0, st))"

definition collect_state :: "msg list list \<Rightarrow> pending \<times> interval list" where
  "collect_state trks = fold process_track trks (Map.empty, [])"

definition collect_notes :: "msg list list \<Rightarrow> interval list" where
  "collect_notes trks = snd (collect_state trks)"

text \<open>The pending starts a track leaves behind when it is paired on its own.\<close>

definition pending_after :: "msg list \<Rightarrow> pending" where
  "pending_after track = fst (process_track track (Map.empty, []))"

section \<open>Quantization and row expansion (lines 42 to 67)\<close>

type_synonym chart = "int list list"

text \<open>\<^verbatim>\<open>max(end for _, end, _ in notes)\<close> on a list known to be non-empty.\<close>

fun max_end :: "interval \<Rightarrow> interval list \<Rightarrow> int" where
  "max_end n ns = fold max (map (\<lambda>(s, e, k). e) ns) (fst (snd n))"

text \<open>
  \<^verbatim>\<open>note in lane_notes\<close> together with \<^verbatim>\<open>lane_notes.index(note)\<close>: the first position
  of the note, \<open>None\<close> when it is absent (the loop then continues).
\<close>

fun index_of :: "int list \<Rightarrow> int \<Rightarrow> nat option" where
  "index_of [] x = None"
| "index_of (y # ys) x = (if y = x then Some 0 else map_option Suc (index_of ys x))"

text \<open>\<^verbatim>\<open>range(a, b)\<close>.\<close>

definition py_range :: "int \<Rightarrow> int \<Rightarrow> int list" where
  "py_range a b = [a..b - 1]"

text \<open>
  Python resolves a list index: a negative index counts from the end, and an index
  outside the list raises.
\<close>

definition py_index :: "'a list \<Rightarrow> int \<Rightarrow> error + nat" where
  "py_index xs i =
     (if 0 \<le> i \<and> i < int (length xs) then Inr (nat i)
      else if i < 0 \<and> - int (length xs) \<le> i then Inr (nat (int (length xs) + i))
      else Inl IndexError)"

text \<open>\<^verbatim>\<open>chart[row][lane] = v\<close>; \<^verbatim>\<open>lane\<close> comes from \<^verbatim>\<open>index\<close> and is never negative.\<close>

definition set_cell :: "chart \<Rightarrow> int \<Rightarrow> nat \<Rightarrow> int \<Rightarrow> error + chart" where
  "set_cell chart row lane v =
     bind_err (py_index chart row) (\<lambda>i.
       if lane < length (chart ! i) then Inr (chart[i := (chart ! i)[lane := v]])
       else Inl IndexError)"

text \<open>The code painted at a row: head (2) on the first \<^verbatim>\<open>rows_per_step\<close> rows, then tail (1).\<close>

definition cell_code :: "int \<Rightarrow> int \<Rightarrow> int \<Rightarrow> int" where
  "cell_code start_row rows_per_step row = (if row < start_row + rows_per_step then 2 else 1)"

text \<open>The loop \<^verbatim>\<open>for row in range(start_row, end_row)\<close>, on the rows still to visit.\<close>

fun paint_rows :: "int \<Rightarrow> int \<Rightarrow> int \<Rightarrow> nat \<Rightarrow> int list \<Rightarrow> chart \<Rightarrow> error + chart" where
  "paint_rows num_rows start_row rows_per_step lane [] chart = Inr chart"
| "paint_rows num_rows start_row rows_per_step lane (row # rows) chart =
     (if row < num_rows then
        bind_err (set_cell chart row lane (cell_code start_row rows_per_step row))
          (paint_rows num_rows start_row rows_per_step lane rows)
      else paint_rows num_rows start_row rows_per_step lane rows chart)"

text \<open>One pass of the loop \<^verbatim>\<open>for start_tick, end_tick, note in notes\<close>.\<close>

fun paint_note :: "int \<Rightarrow> int \<Rightarrow> int \<Rightarrow> int list \<Rightarrow> interval \<Rightarrow> chart \<Rightarrow> error + chart" where
  "paint_note ticks_per_step rows_per_step num_rows lane_notes (start_tick, end_tick, n) chart =
     (case index_of lane_notes n of
        None \<Rightarrow> Inr chart
      | Some lane \<Rightarrow>
          bind_err (floordiv start_tick ticks_per_step) (\<lambda>start_step.
          bind_err (floordiv end_tick ticks_per_step) (\<lambda>end_step.
            let start_row = start_step * rows_per_step;
                end_row = end_step * rows_per_step
            in paint_rows num_rows start_row rows_per_step lane
                 (py_range start_row end_row) chart)))"

fun paint_notes :: "int \<Rightarrow> int \<Rightarrow> int \<Rightarrow> int list \<Rightarrow> interval list \<Rightarrow> chart \<Rightarrow> error + chart" where
  "paint_notes ticks_per_step rows_per_step num_rows lane_notes [] chart = Inr chart"
| "paint_notes ticks_per_step rows_per_step num_rows lane_notes (n # ns) chart =
     bind_err (paint_note ticks_per_step rows_per_step num_rows lane_notes n chart)
       (paint_notes ticks_per_step rows_per_step num_rows lane_notes ns)"

text \<open>\<^verbatim>\<open>num_rows\<close> of lines 43 to 45, for a non-empty list of intervals.\<close>

definition chart_rows :: "int \<Rightarrow> int \<Rightarrow> interval \<Rightarrow> interval list \<Rightarrow> error + int" where
  "chart_rows ticks_per_step rows_per_step n ns =
     bind_err (floordiv (max_end n ns) ticks_per_step) (\<lambda>q. Inr ((q + 1) * rows_per_step))"

text \<open>\<^verbatim>\<open>[[0, 0, 0, 0] for _ in range(num_rows)]\<close>: fresh rows, none shared.\<close>

definition empty_chart :: "int \<Rightarrow> chart" where
  "empty_chart num_rows = replicate (nat num_rows) [0, 0, 0, 0]"

text \<open>Lines 42 to 67 on a non-empty list of intervals.\<close>

definition build_chart :: "int \<Rightarrow> int \<Rightarrow> int list \<Rightarrow> interval \<Rightarrow> interval list \<Rightarrow> error + chart" where
  "build_chart ticks_per_step rows_per_step lane_notes n ns =
     bind_err (chart_rows ticks_per_step rows_per_step n ns) (\<lambda>num_rows.
       paint_notes ticks_per_step rows_per_step num_rows lane_notes (n # ns)
         (empty_chart num_rows))"

section \<open>Serialization (lines 69 to 73)\<close>

text \<open>The binary digits of a natural number, most significant first.\<close>

fun bin_digits :: "nat \<Rightarrow> string" where
  "bin_digits n =
     (if n < 2 then [if n = 0 then CHR ''0'' else CHR ''1'']
      else bin_digits (n div 2) @ [if n mod 2 = 0 then CHR ''0'' else CHR ''1''])"

declare bin_digits.simps [simp del]

text \<open>
  The format \<^verbatim>\<open>{val:02b}\<close>: binary, zero-padded to width 2, the sign of a negative
  number before its digits.
\<close>

definition format_02b :: "int \<Rightarrow> string" where
  "format_02b val =
     (if val < 0 then CHR ''-'' # bin_digits (nat (- val))
      else replicate (2 - length (bin_digits (nat val))) CHR ''0'' @ bin_digits (nat val))"

definition render_line :: "int list \<Rightarrow> string" where
  "render_line row = concat (map format_02b row)"

text \<open>The file is opened for writing and receives one \<^verbatim>\<open>write\<close> per row.\<close>

definition write_chart :: "chart \<Rightarrow> string" where
  "write_chart chart = fold (\<lambda>row f. f @ render_line row @ [CHR 0x0A]) chart []"

section \<open>The encoder\<close>

definition midi_to_chart :: "midi_file \<Rightarrow> int list \<Rightarrow> int \<Rightarrow> int \<Rightarrow> error + outcome" where
  "midi_to_chart mid lane_notes subdivision rows_per_step =
     bind_err (floordiv (ticks_per_beat mid) subdivision) (\<lambda>ticks_per_step.
       case collect_notes (tracks mid) of
         [] \<Rightarrow> Inr NoNotesFound
       | n # ns \<Rightarrow>
           bind_err (build_chart ticks_per_step rows_per_step lane_notes n ns)
             (\<lambda>chart. Inr (Written (write_chart chart))))"

section \<open>Notions used in the statements\<close>

text \<open>The condition of the \<^verbatim>\<open>elif\<close> at line 33: the message ends a note.\<close>

definition closes :: "msg \<Rightarrow> bool" where
  "closes m \<longleftrightarrow> type m = note_off \<or> (type m = note_on \<and> velocity m = 0)"

text \<open>A stream with every zero-velocity note-on rewritten as an explicit note-off.\<close>

definition as_note_off :: "msg \<Rightarrow> msg" where
  "as_note_off m =
     (if type m = note_on \<and> velocity m = 0 then Msg note_off (time m) (note_of m) 0 else m)"

text \<open>
  Two invariants of the pairing loops. Within one track started with nothing pending,
  every pending start lies between 0 and the running tick and every interval is ordered.
  Across tracks only the signs survive, because \<^verbatim>\<open>abs_time\<close> restarts at 0 while
  \<^verbatim>\<open>active\<close> keeps its entries.
\<close>

definition ticks_ordered :: "int \<times> pending \<times> interval list \<Rightarrow> bool" where
  "ticks_ordered st \<longleftrightarrow>
     (case st of (t, a, ns) \<Rightarrow>
        0 \<le> t \<and> (\<forall>k s. a k = Some s \<longrightarrow> 0 \<le> s \<and> s \<le> t) \<and>
        (\<forall>(s, e, k) \<in> set ns. 0 \<le> s \<and> s \<le> e))"

definition ticks_nonneg :: "pending \<times> interval list \<Rightarrow> bool" where
  "ticks_nonneg st \<longleftrightarrow>
     (case st of (a, ns) \<Rightarrow>
        (\<forall>k s. a k = Some s \<longrightarrow> 0 \<le> s) \<and> (\<forall>(s, e, k) \<in> set ns. 0 \<le> s \<and> 0 \<le> e))"

text \<open>
  The rows an interval spans (lines 55 to 59, for a non-zero step size), and whether it
  paints a given cell: its note sits in lane \<open>lane\<close> and the row lies in its range.
\<close>

definition start_row_of :: "int \<Rightarrow> int \<Rightarrow> interval \<Rightarrow> int" where
  "start_row_of tps rps iv = (case iv of (s, e, n) \<Rightarrow> (s div tps) * rps)"

definition end_row_of :: "int \<Rightarrow> int \<Rightarrow> interval \<Rightarrow> int" where
  "end_row_of tps rps iv = (case iv of (s, e, n) \<Rightarrow> (e div tps) * rps)"

definition covers :: "int \<Rightarrow> int \<Rightarrow> int list \<Rightarrow> interval \<Rightarrow> int \<Rightarrow> nat \<Rightarrow> bool" where
  "covers tps rps lane_notes iv r lane \<longleftrightarrow>
     index_of lane_notes (snd (snd iv)) = Some lane \<and>
     start_row_of tps rps iv \<le> r \<and> r < end_row_of tps rps iv"

text \<open>A row as the chart holds it: four codes, each none (0), tail (1) or head (2).\<close>

definition valid_row :: "int list \<Rightarrow> bool" where
  "valid_row row \<longleftrightarrow> length row = 4 \<and> set row \<subseteq> {0, 1, 2}"

text \<open>
  The table of the module's docstring: \<open>00\<close> is no note (0), \<open>01\<close> is tail (1),
  \<open>10\<close> is head (2), \<open>11\<close> is unused.
\<close>

definition two_bit :: "int \<Rightarrow> string" where
  "two_bit v = (if v = 0 then ''00'' else if v = 1 then ''01'' else ''10'')"

text \<open>
  Modelled from the spec: the reader of the wire format, which the Python tool does not
  contain. A line is four 2-bit fields, lane 0 first, decoded by the table above; a file
  is a sequence of 8-character lines, each ended by a newline.
\<close>

definition line_fields :: "string \<Rightarrow> string list" where
  "line_fields line = [take 2 line, take 2 (drop 2 line), take 2 (drop 4 line), take 2 (drop 6 line)]"

definition decode_field :: "string \<Rightarrow> int option" where
  "decode_field f =
     (if f = ''00'' then Some 0 else if f = ''01'' then Some 1
      else if f = ''10'' then Some 2 else None)"

definition decode_line :: "string \<Rightarrow> int list option" where
  "decode_line line = (if length line = 8 then those (map decode_field (line_fields line)) else None)"

fun decode_chart :: "string \<Rightarrow> chart option" where
  "decode_chart s =
     (if s = [] then Some []
      else if length s < 9 \<or> s ! 8 \<noteq> CHR 0x0A then None
      else case decode_line (take 8 s) of
             None \<Rightarrow> None
           | Some row \<Rightarrow> map_option ((#) row) (decode_chart (drop 9 s)))"

declare decode_chart.simps [simp del]

section \<open>Time quantization\<close>

text \<open>
  C3. With a positive \<^verbatim>\<open>ticks_per_step\<close> the quantization \<^verbatim>\<open>tick // ticks_per_step\<close>
  returns the floor of the quotient, is monotone in the tick, and maps every multiple
  \<open>k * ticks_per_step\<close> back to \<open>k\<close> (for every integer \<open>k\<close>, the non-negative ones
  included). This is the step the encoder uses: one pass of the interval loop paints the
  rows from \<open>floor (start_tick / ticks_per_step) * rows_per_step\<close> up to
  \<open>floor (end_tick / ticks_per_step) * rows_per_step\<close>, and the chart has
  \<open>(floor (max_tick / ticks_per_step) + 1) * rows_per_step\<close> rows.
\<close>

theorem quantize_floor_monotone:
  "0 < tps \<Longrightarrow>
     floordiv tick tps = Inr \<lfloor>real_of_int tick / real_of_int tps\<rfloor> \<and>
     (\<forall>t1 t2. t1 \<le> t2 \<longrightarrow>
        (\<exists>q1 q2. floordiv t1 tps = Inr q1 \<and> floordiv t2 tps = Inr q2 \<and> q1 \<le> q2)) \<and>
     (\<forall>k. floordiv (k * tps) tps = Inr k) \<and>
     paint_note tps rps num_rows lane_notes (s, e, n) c =
       (case index_of lane_notes n of
          None \<Rightarrow> Inr c
        | Some lane \<Rightarrow>
            paint_rows num_rows (\<lfloor>real_of_int s / real_of_int tps\<rfloor> * rps) rps lane
              (py_range (\<lfloor>real_of_int s / real_of_int tps\<rfloor> * rps)
                 (\<lfloor>real_of_int e / real_of_int tps\<rfloor> * rps)) c) \<and>
     chart_rows tps rps iv ns =
       Inr ((\<lfloor>real_of_int (max_end iv ns) / real_of_int tps\<rfloor> + 1) * rps)"
proof (intro conjI allI impI)
  assume tps: "0 < tps"
  show "floordiv tick tps = Inr \<lfloor>real_of_int tick / real_of_int tps\<rfloor>"
    using tps by (simp add: floordiv_def floor_divide_of_int_eq)
  show "\<exists>q1 q2. floordiv t1 tps = Inr q1 \<and> floordiv t2 tps = Inr q2 \<and> q1 \<le> q2"
    if "t1 \<le> t2" for t1 t2
    using tps that by (simp add: floordiv_def zdiv_mono1)
  show "floordiv (k * tps) tps = Inr k" for k
    using tps by (simp add: floordiv_def)
  show "paint_note tps rps num_rows lane_notes (s, e, n) c =
       (case index_of lane_notes n of
          None \<Rightarrow> Inr c
        | Some lane \<Rightarrow>
            paint_rows num_rows (\<lfloor>real_of_int s / real_of_int tps\<rfloor> * rps) rps lane
              (py_range (\<lfloor>real_of_int s / real_of_int tps\<rfloor> * rps)
                 (\<lfloor>real_of_int e / real_of_int tps\<rfloor> * rps)) c)"
    using tps
    by (simp add: floordiv_def bind_err_def floor_divide_of_int_eq Let_def split: option.splits)
  show "chart_rows tps rps iv ns =
       Inr ((\<lfloor>real_of_int (max_end iv ns) / real_of_int tps\<rfloor> + 1) * rps)"
    using tps
    by (simp add: chart_rows_def floordiv_def bind_err_def floor_divide_of_int_eq
        del: max_end.simps)
qed

theorem quantize_floor_monotone_witness:
  "(0::int) < 120 \<and> floordiv 250 120 = Inr 2 \<and> floordiv 119 120 = Inr 0 \<and>
   floordiv 120 120 = Inr 1 \<and> floordiv (3 * 120) 120 = Inr 3 \<and>
   paint_note 120 4 12 [60, 61, 62, 63] (130, 400, 61) (empty_chart 12) =
     paint_rows 12 4 4 1 (py_range 4 12) (empty_chart 12) \<and>
   chart_rows 120 4 (0, 250, 60) [] = Inr 12"
proof -
  have pos: "(0::int) < 120"
    by simp
  have fl: "\<lfloor>real_of_int 250 / real_of_int 120\<rfloor> = (2::int)"
    "\<lfloor>real_of_int 130 / real_of_int 120\<rfloor> = (1::int)"
    "\<lfloor>real_of_int 400 / real_of_int 120\<rfloor> = (3::int)"
    by (simp_all add: floor_divide_of_int_eq)
  have ix: "index_of [60, 61, 62, 63] 61 = Some 1"
    by simp
  have mx: "max_end (0, 250, 60) [] = 250"
    by simp
  note t = quantize_floor_monotone [OF pos, of 250 4 12 "[60, 61, 62, 63]" 130 400 61
      "empty_chart 12" "(0, 250, 60)" "[]"]
  note t1 = t [THEN conjunct1]
  note t4 = t [THEN conjunct2, THEN conjunct2, THEN conjunct2, THEN conjunct1]
  note t5 = t [THEN conjunct2, THEN conjunct2, THEN conjunct2, THEN conjunct2]
  have a: "floordiv 250 120 = Inr 2"
    using t1 fl(1) by simp
  have b: "paint_note 120 4 12 [60, 61, 62, 63] (130, 400, 61) (empty_chart 12) =
     paint_rows 12 4 4 1 (py_range 4 12) (empty_chart 12)"
    using t4 ix fl(2,3) by (simp del: paint_note.simps)
  have c: "chart_rows 120 4 (0, 250, 60) [] = Inr 12"
    using t5 mx fl(1) by (simp del: max_end.simps)
  have d: "floordiv 119 120 = Inr 0" "floordiv 120 120 = Inr 1" "floordiv (3 * 120) 120 = Inr 3"
    by (simp_all add: floordiv_def)
  from pos a b c d show ?thesis
    by (intro conjI)
qed

text \<open>
  C9. When \<^verbatim>\<open>1 <= ticks_per_beat < subdivision\<close> the step size
  \<^verbatim>\<open>ticks_per_beat // subdivision\<close> is 0, a quantization by it raises
  \<^verbatim>\<open>ZeroDivisionError\<close>, and so does the encoder as soon as pairing has produced an
  interval (the first division by the step size is the one of line 44).
\<close>

theorem zero_step_raises:
  "1 \<le> ticks_per_beat mid \<Longrightarrow> ticks_per_beat mid < subdivision \<Longrightarrow>
     floordiv (ticks_per_beat mid) subdivision = Inr 0 \<and>
     bind_err (floordiv (ticks_per_beat mid) subdivision) (floordiv tick) = Inl ZeroDivisionError \<and>
     (collect_notes (tracks mid) \<noteq> [] \<longrightarrow>
        midi_to_chart mid lane_notes subdivision rows_per_step = Inl ZeroDivisionError)"
  by (cases "collect_notes (tracks mid)")
     (simp_all add: floordiv_def bind_err_def midi_to_chart_def build_chart_def chart_rows_def)

theorem zero_step_raises_witness:
  "(1::int) \<le> 3 \<and> (3::int) < 4 \<and> floordiv 3 4 = Inr 0 \<and>
   bind_err (floordiv 3 4) (floordiv 240) = Inl ZeroDivisionError \<and>
   collect_notes [[Msg note_on 0 60 64, Msg note_off 120 60 0]] \<noteq> [] \<and>
   midi_to_chart \<lparr>ticks_per_beat = 3, tracks = [[Msg note_on 0 60 64, Msg note_off 120 60 0]]\<rparr>
     [60, 61, 62, 63] 4 4 = Inl ZeroDivisionError"
  using zero_step_raises
    [of "\<lparr>ticks_per_beat = 3, tracks = [[Msg note_on 0 60 64, Msg note_off 120 60 0]]\<rparr>" 4 240
      "[60, 61, 62, 63]" 4]
  by (simp add: collect_notes_def collect_state_def process_track_def floordiv_def bind_err_def)

section \<open>Event pairing: the notes appended by a track\<close>

lemma process_msg_appends:
  "process_msg m (t, a, ns) =
     (case process_msg m (t, a, []) of (t', a', new) \<Rightarrow> (t', a', ns @ new))"
  by (simp add: Let_def split: option.splits)

lemma fold_process_msg_appends:
  "fold process_msg track (t, a, ns) =
     (case fold process_msg track (t, a, []) of (t', a', new) \<Rightarrow> (t', a', ns @ new))"
proof (induction track arbitrary: t a ns)
  case Nil
  show ?case by simp
next
  case (Cons m track)
  obtain t1 a1 d where d: "process_msg m (t, a, []) = (t1, a1, d)"
    by (cases "process_msg m (t, a, [])") auto
  have s: "process_msg m (t, a, ns) = (t1, a1, ns @ d)"
    using process_msg_appends [of m t a ns] d by simp
  obtain t2 a2 new where n: "fold process_msg track (t1, a1, []) = (t2, a2, new)"
    by (cases "fold process_msg track (t1, a1, [])") auto
  have "fold process_msg track (t1, a1, ns @ d) = (t2, a2, (ns @ d) @ new)"
    using Cons.IH [of t1 a1 "ns @ d"] n by simp
  moreover have "fold process_msg track (t1, a1, d) = (t2, a2, d @ new)"
    using Cons.IH [of t1 a1 d] n by simp
  ultimately show ?case
    using d s by simp
qed

lemma process_track_alone:
  "process_track track (Map.empty, ns) = (pending_after track, ns @ collect_notes [track])"
  using fold_process_msg_appends [of track 0 Map.empty ns]
  by (simp add: process_track_def pending_after_def collect_notes_def collect_state_def
      split: prod.splits)

lemma fold_tracks_alone:
  "\<forall>tr \<in> set (butlast trks). pending_after tr = Map.empty \<Longrightarrow>
     snd (fold process_track trks (Map.empty, ns)) =
       ns @ concat (map (\<lambda>tr. collect_notes [tr]) trks)"
proof (induction trks arbitrary: ns)
  case Nil
  show ?case by simp
next
  case (Cons tr trks)
  show ?case
  proof (cases trks)
    case Nil
    then show ?thesis by (simp add: process_track_alone)
  next
    case (Cons tr' rest)
    with Cons.prems have e: "pending_after tr = Map.empty"
      and r: "\<forall>x \<in> set (butlast trks). pending_after x = Map.empty"
      by auto
    show ?thesis
      using Cons.IH [OF r, of "ns @ collect_notes [tr]"] e
      by (simp add: process_track_alone)
  qed
qed

section \<open>Event pairing: tick invariants\<close>

lemma process_msg_ordered:
  "0 \<le> time m \<Longrightarrow> ticks_ordered st \<Longrightarrow> ticks_ordered (process_msg m st)"
proof -
  obtain t a ns where st: "st = (t, a, ns)" by (cases st)
  assume d: "0 \<le> time m" and o: "ticks_ordered st"
  from o st have t: "0 \<le> t"
    and a: "\<And>k s. a k = Some s \<Longrightarrow> 0 \<le> s \<and> s \<le> t"
    and n: "\<And>s e k. (s, e, k) \<in> set ns \<Longrightarrow> 0 \<le> s \<and> s \<le> e"
    by (auto simp: ticks_ordered_def)
  have a': "\<And>k s. a k = Some s \<Longrightarrow> 0 \<le> s \<and> s \<le> t + time m"
    using a d by fastforce
  show ?thesis
    unfolding st using t d a' n
    by (auto simp: ticks_ordered_def Let_def split: option.splits if_splits)
qed

lemma fold_process_msg_ordered:
  "\<forall>m \<in> set track. 0 \<le> time m \<Longrightarrow> ticks_ordered st \<Longrightarrow>
     ticks_ordered (fold process_msg track st)"
  by (induction track arbitrary: st) (simp_all add: process_msg_ordered)

lemma collect_single_ordered:
  assumes "\<forall>m \<in> set track. 0 \<le> time m" and "(s, e, k) \<in> set (collect_notes [track])"
  shows "0 \<le> s \<and> s \<le> e"
proof -
  have "ticks_ordered (0, Map.empty, [])"
    by (simp add: ticks_ordered_def)
  then have "ticks_ordered (fold process_msg track (0, Map.empty, []))"
    using assms(1) by (rule fold_process_msg_ordered [rotated])
  then show ?thesis
    using assms(2)
    by (cases "fold process_msg track (0, Map.empty, [])")
       (auto simp: ticks_ordered_def collect_notes_def collect_state_def process_track_def)
qed

lemma process_msg_nonneg:
  "0 \<le> time m \<Longrightarrow> 0 \<le> t \<Longrightarrow> ticks_nonneg (a, ns) \<Longrightarrow>
     (case process_msg m (t, a, ns) of (t', st') \<Rightarrow> 0 \<le> t' \<and> ticks_nonneg st')"
  by (auto simp: ticks_nonneg_def Let_def split: option.splits)

lemma fold_process_msg_nonneg:
  "\<forall>m \<in> set track. 0 \<le> time m \<Longrightarrow> 0 \<le> t \<Longrightarrow> ticks_nonneg st \<Longrightarrow>
     ticks_nonneg (snd (fold process_msg track (t, st)))"
proof (induction track arbitrary: t st)
  case Nil
  then show ?case by simp
next
  case (Cons m track)
  obtain a ns where st: "st = (a, ns)" by (cases st)
  obtain t' st' where p: "process_msg m (t, a, ns) = (t', st')"
    by (cases "process_msg m (t, a, ns)") auto
  have "0 \<le> t' \<and> ticks_nonneg st'"
    using process_msg_nonneg [of m t a ns] Cons.prems p st by simp
  then show ?case
    using Cons.IH [of t' st'] Cons.prems p st by simp
qed

lemma fold_process_track_nonneg:
  "\<forall>tr \<in> set trks. \<forall>m \<in> set tr. 0 \<le> time m \<Longrightarrow> ticks_nonneg st \<Longrightarrow>
     ticks_nonneg (fold process_track trks st)"
  by (induction trks arbitrary: st)
     (simp_all add: process_track_def fold_process_msg_nonneg)

lemma collect_notes_nonneg:
  assumes "\<forall>tr \<in> set trks. \<forall>m \<in> set tr. 0 \<le> time m" and "(s, e, k) \<in> set (collect_notes trks)"
  shows "0 \<le> s \<and> 0 \<le> e"
proof -
  have "ticks_nonneg (Map.empty, [])"
    by (simp add: ticks_nonneg_def)
  then have "ticks_nonneg (collect_state trks)"
    unfolding collect_state_def using assms(1) by (rule fold_process_track_nonneg [rotated])
  then show ?thesis
    using assms(2)
    by (cases "collect_state trks") (auto simp: ticks_nonneg_def collect_notes_def)
qed

lemma process_msg_keeps_notes:
  "\<not> closes m \<Longrightarrow> snd (snd (process_msg m (t, a, ns))) = ns"
  by (auto simp: closes_def Let_def)

lemma fold_process_msg_keeps_notes:
  "\<forall>m \<in> set track. \<not> closes m \<Longrightarrow> snd (snd (fold process_msg track (t, a, ns))) = ns"
proof (induction track arbitrary: t a ns)
  case Nil
  show ?case by simp
next
  case (Cons m track)
  obtain t' a' where "process_msg m (t, a, ns) = (t', a', ns)"
    using process_msg_keeps_notes [of m t a ns] Cons.prems
    by (cases "process_msg m (t, a, ns)") auto
  then show ?case
    using Cons.IH [of t' a' ns] Cons.prems by simp
qed

lemma fold_process_track_keeps_notes:
  "\<forall>tr \<in> set trks. \<forall>m \<in> set tr. \<not> closes m \<Longrightarrow> snd (fold process_track trks (a, ns)) = ns"
proof (induction trks arbitrary: a ns)
  case Nil
  show ?case by simp
next
  case (Cons tr trks)
  have "snd (process_track tr (a, ns)) = ns"
    using fold_process_msg_keeps_notes [of tr 0 a ns] Cons.prems
    by (simp add: process_track_def)
  then obtain a' where "process_track tr (a, ns) = (a', ns)"
    by (cases "process_track tr (a, ns)") auto
  then show ?case
    using Cons.IH [of a' ns] Cons.prems by simp
qed

lemma collect_notes_unmatched:
  "\<forall>tr \<in> set trks. \<forall>m \<in> set tr. \<not> closes m \<Longrightarrow> collect_notes trks = []"
  by (simp add: collect_notes_def collect_state_def fold_process_track_keeps_notes)

lemma process_msg_as_note_off: "process_msg (as_note_off m) st = process_msg m st"
  by (cases st) (simp add: as_note_off_def Let_def split: option.splits)

lemma fold_process_msg_as_note_off:
  "fold process_msg (map as_note_off track) st = fold process_msg track st"
  by (induction track arbitrary: st) (simp_all add: process_msg_as_note_off)

lemma process_track_as_note_off:
  "process_track (map as_note_off track) = process_track track"
  by (rule ext) (simp add: process_track_def fold_process_msg_as_note_off)

lemma fold_process_track_as_note_off:
  "fold process_track (map (map as_note_off) trks) st = fold process_track trks st"
  by (induction trks arbitrary: st) (simp_all add: process_track_as_note_off)

section \<open>Event pairing: the claims\<close>

text \<open>
  C4, as stated, fails. The dictionary \<^verbatim>\<open>active\<close> is created before the loop over the
  tracks and is never cleared, so a note-on left pending by the first track is closed by
  a note-off of the second: the two tracks paired alone give no interval, the file
  gives one.
\<close>

theorem tracks_share_pending_counterexample:
  "collect_notes [[Msg note_on 0 60 64], [Msg note_off 10 60 0]] = [(0, 10, 60)] \<and>
   collect_notes [[Msg note_on 0 60 64]] = [] \<and>
   collect_notes [[Msg note_off 10 60 0]] = [] \<and>
   collect_notes [[Msg note_on 0 60 64], [Msg note_off 10 60 0]] \<noteq>
     collect_notes [[Msg note_on 0 60 64]] @ collect_notes [[Msg note_off 10 60 0]]"
  by (simp add: collect_notes_def collect_state_def process_track_def)

text \<open>
  C4, amended. When every track but the last leaves no note pending, the pooled list is
  the concatenation, in track order, of the lists obtained by pairing each track alone.
\<close>

theorem tracks_pooled_when_settled:
  "\<forall>tr \<in> set (butlast trks). pending_after tr = Map.empty \<Longrightarrow>
     collect_notes trks = concat (map (\<lambda>tr. collect_notes [tr]) trks)"
proof -
  assume "\<forall>tr \<in> set (butlast trks). pending_after tr = Map.empty"
  then have "snd (fold process_track trks (Map.empty, [])) =
      [] @ concat (map (\<lambda>tr. collect_notes [tr]) trks)"
    by (rule fold_tracks_alone)
  then show ?thesis
    by (simp add: collect_notes_def collect_state_def)
qed

theorem tracks_pooled_when_settled_witness:
  "pending_after [Msg note_on 0 60 64, Msg note_off 10 60 0] = Map.empty \<and>
   collect_notes [[Msg note_on 0 60 64, Msg note_off 10 60 0],
                  [Msg note_on 5 61 64, Msg note_off 10 61 0]]
     = collect_notes [[Msg note_on 0 60 64, Msg note_off 10 60 0]] @
       collect_notes [[Msg note_on 5 61 64, Msg note_off 10 61 0]] \<and>
   collect_notes [[Msg note_on 0 60 64, Msg note_off 10 60 0],
                  [Msg note_on 5 61 64, Msg note_off 10 61 0]]
     = [(0, 10, 60), (5, 15, 61)]"
  using tracks_pooled_when_settled
    [of "[[Msg note_on 0 60 64, Msg note_off 10 60 0], [Msg note_on 5 61 64, Msg note_off 10 61 0]]"]
  by (simp add: collect_notes_def collect_state_def process_track_def pending_after_def)

text \<open>
  C5, as stated, fails. Both delta times are non-negative, yet the interval starts at
  tick 100 of the first track and ends at tick 10 of the second.
\<close>

theorem interval_ticks_ordered_counterexample:
  "0 \<le> time (Msg note_on 100 60 64) \<and> 0 \<le> time (Msg note_off 10 60 0) \<and>
   collect_notes [[Msg note_on 100 60 64], [Msg note_off 10 60 0]] = [(100, 10, 60)] \<and>
   \<not> (100::int) \<le> 10"
  by (simp add: collect_notes_def collect_state_def process_track_def)

text \<open>
  C5, amended. With non-negative delta times both ticks of every interval are
  non-negative, and the start is at most the end whenever every track but the last
  leaves no note pending (a single track always does).
\<close>

theorem interval_ticks_nonneg_ordered:
  assumes "\<forall>tr \<in> set trks. \<forall>m \<in> set tr. 0 \<le> time m"
    and "(s, e, k) \<in> set (collect_notes trks)"
  shows "0 \<le> s \<and> 0 \<le> e \<and>
    ((\<forall>tr \<in> set (butlast trks). pending_after tr = Map.empty) \<longrightarrow> s \<le> e)"
proof -
  have "s \<le> e" if settled: "\<forall>tr \<in> set (butlast trks). pending_after tr = Map.empty"
  proof -
    have "collect_notes trks = concat (map (\<lambda>tr. collect_notes [tr]) trks)"
      using fold_tracks_alone [OF settled, of "[]"]
      by (simp add: collect_notes_def collect_state_def)
    with assms(2)
    obtain tr where "tr \<in> set trks" and "(s, e, k) \<in> set (collect_notes [tr])"
      by auto
    with assms(1) show ?thesis
      using collect_single_ordered [of tr s e k] by simp
  qed
  with collect_notes_nonneg [OF assms] show ?thesis
    by simp
qed

theorem interval_ticks_nonneg_ordered_witness:
  "0 \<le> time (Msg note_on 0 60 64) \<and> 0 \<le> time (Msg note_off 10 60 0) \<and>
   0 \<le> time (Msg note_on 5 61 64) \<and> 0 \<le> time (Msg note_off 10 61 0) \<and>
   (5, 15, 61) \<in> set (collect_notes [[Msg note_on 0 60 64, Msg note_off 10 60 0],
                                       [Msg note_on 5 61 64, Msg note_off 10 61 0]]) \<and>
   pending_after [Msg note_on 0 60 64, Msg note_off 10 60 0] = Map.empty \<and>
   (0::int) \<le> 5 \<and> (0::int) \<le> 15 \<and> (5::int) \<le> 15"
  using interval_ticks_nonneg_ordered
    [of "[[Msg note_on 0 60 64, Msg note_off 10 60 0], [Msg note_on 5 61 64, Msg note_off 10 61 0]]"
      5 15 61]
  by (simp add: collect_notes_def collect_state_def process_track_def pending_after_def)

text \<open>
  C6. A note-on with velocity 0 takes the same branch as a note-off: the state after it
  is the state after a note-off with the same delta time and note, whatever the
  note-off's velocity. A pending start is closed into an interval ending at the running
  tick and removed from \<^verbatim>\<open>active\<close>; without a pending start only the tick advances.
  Hence rewriting every zero-velocity note-on of a file as a note-off changes no interval.
\<close>

theorem zero_velocity_is_note_off:
  "process_msg (Msg note_on d k 0) (t, active, notes) =
     process_msg (Msg note_off d k v) (t, active, notes) \<and>
   process_msg (Msg note_on d k 0) (t, active, notes) =
     (case active k of
        Some start \<Rightarrow> (t + d, active(k := None), notes @ [(start, t + d, k)])
      | None \<Rightarrow> (t + d, active, notes)) \<and>
   collect_notes (map (map as_note_off) trks) = collect_notes trks"
  by (simp add: collect_notes_def collect_state_def fold_process_track_as_note_off Let_def
      split: option.splits)

theorem zero_velocity_is_note_off_witness:
  "process_msg (Msg note_on 50 60 0) (0, Map.empty(60 \<mapsto> 10), []) =
     process_msg (Msg note_off 50 60 64) (0, Map.empty(60 \<mapsto> 10), []) \<and>
   process_msg (Msg note_on 50 60 0) (0, Map.empty(60 \<mapsto> 10), []) =
     (50, (Map.empty(60 \<mapsto> 10))(60 := None), [(10, 50, 60)]) \<and>
   process_msg (Msg note_on 50 60 0) (0, Map.empty, []) = (50, Map.empty, []) \<and>
   collect_notes [[Msg note_on 10 60 64, Msg note_on 40 60 0]] =
     collect_notes [[Msg note_on 10 60 64, Msg note_off 40 60 0]] \<and>
   collect_notes [[Msg note_on 10 60 64, Msg note_on 40 60 0]] = [(10, 50, 60)]"
  using zero_velocity_is_note_off [of 50 60 0 "Map.empty(60 \<mapsto> 10)" "[]" 64
      "[[Msg note_on 10 60 64, Msg note_on 40 60 0]]"]
    zero_velocity_is_note_off [of 50 60 0 Map.empty "[]" 64 "[]"]
  by (simp add: collect_notes_def collect_state_def process_track_def as_note_off_def)

text \<open>
  C8. Once the step size has been computed (the subdivision is not 0), a file whose
  pairing yields no interval makes the encoder print its message and return: no error,
  no file. This covers a file without tracks and a file in which no message ends a note.
\<close>

theorem no_intervals_no_file:
  "subdivision \<noteq> 0 \<Longrightarrow>
     (collect_notes (tracks mid) = [] \<longrightarrow>
        midi_to_chart mid lane_notes subdivision rows_per_step = Inr NoNotesFound) \<and>
     (tracks mid = [] \<longrightarrow>
        midi_to_chart mid lane_notes subdivision rows_per_step = Inr NoNotesFound) \<and>
     ((\<forall>tr \<in> set (tracks mid). \<forall>m \<in> set tr. \<not> closes m) \<longrightarrow>
        midi_to_chart mid lane_notes subdivision rows_per_step = Inr NoNotesFound)"
  using collect_notes_unmatched [of "tracks mid"]
  by (auto simp: midi_to_chart_def floordiv_def bind_err_def collect_notes_def collect_state_def)

theorem no_intervals_no_file_witness:
  "(4::int) \<noteq> 0 \<and> collect_notes [[Msg note_on 0 60 64, Msg other 10 0 0]] = [] \<and>
   \<not> closes (Msg note_on 0 60 64) \<and> \<not> closes (Msg other 10 0 0) \<and>
   midi_to_chart \<lparr>ticks_per_beat = 480, tracks = [[Msg note_on 0 60 64, Msg other 10 0 0]]\<rparr>
     [60, 61, 62, 63] 4 4 = Inr NoNotesFound"
  using no_intervals_no_file
    [of 4 "\<lparr>ticks_per_beat = 480, tracks = [[Msg note_on 0 60 64, Msg other 10 0 0]]\<rparr>"
      "[60, 61, 62, 63]" 4]
  by (simp add: collect_notes_def collect_state_def process_track_def closes_def)

section \<open>Row expansion: the effect of the loops\<close>

lemma index_of_less: "index_of xs x = Some i \<Longrightarrow> i < length xs"
  by (induction xs arbitrary: i) (auto split: if_splits)

lemma index_of_nth: "index_of xs x = Some i \<Longrightarrow> xs ! i = x"
  by (induction xs arbitrary: i) (auto split: if_splits)

lemma index_of_distinct:
  "distinct xs \<Longrightarrow> i < length xs \<Longrightarrow> index_of xs (xs ! i) = Some i"
proof (induction xs arbitrary: i)
  case Nil
  then show ?case by simp
next
  case (Cons y ys)
  then show ?case by (cases i) auto
qed

lemma set_cell_inside:
  "0 \<le> row \<Longrightarrow> row < int (length c) \<Longrightarrow> lane < length (c ! nat row) \<Longrightarrow>
     set_cell c row lane v = Inr (c[nat row := (c ! nat row)[lane := v]])"
  by (simp add: set_cell_def py_index_def bind_err_def)

lemma widths_put: "map length (c[i := (c ! i)[lane := v]]) = map length c"
  by (cases "i < length c") (simp_all add: map_update list_update_same_conv list_update_beyond)

lemma nth_put:
  assumes "i < length c" and "lane < length (c ! i)"
  shows "c[i := (c ! i)[lane := v]] ! j ! k = (if j = i \<and> k = lane then v else c ! j ! k)"
  using assms by (auto simp: nth_list_update)

lemma paint_rows_effect:
  assumes "\<forall>row \<in> set rows. 0 \<le> row"
    and "num_rows \<le> int (length c)"
    and "\<forall>w \<in> set (map length c). lane < w"
  shows "\<exists>c'. paint_rows num_rows sr rps lane rows c = Inr c' \<and>
           map length c' = map length c \<and>
           (\<forall>j k. j < length c \<longrightarrow>
              c' ! j ! k =
                (if k = lane \<and> int j \<in> set rows \<and> int j < num_rows
                 then cell_code sr rps (int j) else c ! j ! k))"
  using assms
proof (induction rows arbitrary: c)
  case Nil
  show ?case by simp
next
  case (Cons row rows)
  show ?case
  proof (cases "row < num_rows")
    case False
    from Cons.IH [of c] Cons.prems
    obtain c' where c': "paint_rows num_rows sr rps lane rows c = Inr c'"
      "map length c' = map length c"
      "\<And>j k. j < length c \<Longrightarrow> c' ! j ! k =
          (if k = lane \<and> int j \<in> set rows \<and> int j < num_rows
           then cell_code sr rps (int j) else c ! j ! k)"
      by auto
    show ?thesis
      using False c' by auto
  next
    case True
    let ?i = "nat row"
    let ?v = "cell_code sr rps row"
    let ?c1 = "c[?i := (c ! ?i)[lane := ?v]]"
    from Cons.prems True have row: "0 \<le> row" "row < int (length c)" "?i < length c"
      by auto
    with Cons.prems(3) have lane: "lane < length (c ! ?i)"
      by simp
    have put: "set_cell c row lane ?v = Inr ?c1"
      using row lane by (simp add: set_cell_inside)
    have w1: "map length ?c1 = map length c"
      by (rule widths_put)
    have l1: "length ?c1 = length c"
      by simp
    from Cons.IH [of ?c1] Cons.prems w1
    obtain c' where c': "paint_rows num_rows sr rps lane rows ?c1 = Inr c'"
      "map length c' = map length ?c1"
      "\<And>j k. j < length c \<Longrightarrow> c' ! j ! k =
          (if k = lane \<and> int j \<in> set rows \<and> int j < num_rows
           then cell_code sr rps (int j) else ?c1 ! j ! k)"
      by auto
    have run: "paint_rows num_rows sr rps lane (row # rows) c = Inr c'"
      using True put c'(1) by (simp add: bind_err_def)
    have cell: "c' ! j ! k =
        (if k = lane \<and> int j \<in> set (row # rows) \<and> int j < num_rows
         then cell_code sr rps (int j) else c ! j ! k)" if j: "j < length c" for j k
    proof (cases "j = ?i \<and> k = lane")
      case True
      with row have "int j = row" by simp
      with True row \<open>row < num_rows\<close> show ?thesis
        using c'(3) [OF j, of k] nth_put [OF row(3) lane, of ?v j k] by auto
    next
      case False
      then have "int j = row \<Longrightarrow> k \<noteq> lane"
        by auto
      with False show ?thesis
        using c'(3) [OF j, of k] nth_put [OF row(3) lane, of ?v j k] by auto
    qed
    show ?thesis
      using run c'(2) w1 cell by auto
  qed
qed


lemma set_py_range: "set (py_range a b) = {r. a \<le> r \<and> r < b}"
  by (auto simp: py_range_def)

lemma start_row_nonneg:
  "0 < tps \<Longrightarrow> 0 \<le> rps \<Longrightarrow> 0 \<le> fst iv \<Longrightarrow> 0 \<le> start_row_of tps rps iv"
  by (cases iv) (simp add: start_row_of_def pos_imp_zdiv_nonneg_iff)

lemma paint_note_effect:
  assumes "0 < tps" and "0 \<le> rps" and "0 \<le> fst iv"
    and "num_rows \<le> int (length c)"
    and "\<And>lane. index_of lane_notes (snd (snd iv)) = Some lane \<Longrightarrow>
           \<forall>w \<in> set (map length c). lane < w"
  shows "\<exists>c'. paint_note tps rps num_rows lane_notes iv c = Inr c' \<and>
           map length c' = map length c \<and>
           (\<forall>j k. j < length c \<longrightarrow>
              c' ! j ! k =
                (if covers tps rps lane_notes iv (int j) k \<and> int j < num_rows
                 then cell_code (start_row_of tps rps iv) rps (int j) else c ! j ! k))"
proof -
  obtain s e n where iv: "iv = (s, e, n)" by (cases iv)
  show ?thesis
  proof (cases "index_of lane_notes n")
    case None
    then show ?thesis
      by (simp add: iv covers_def)
  next
    case (Some lane)
    let ?sr = "start_row_of tps rps iv" and ?er = "end_row_of tps rps iv"
    have wide: "\<forall>w \<in> set (map length c). lane < w"
      using assms(5) [of lane] Some by (simp add: iv)
    have "0 \<le> ?sr"
      using assms(1-3) by (rule start_row_nonneg)
    then have rows: "\<forall>row \<in> set (py_range ?sr ?er). 0 \<le> row"
      by (auto simp: set_py_range)
    from paint_rows_effect [OF rows assms(4) wide, of ?sr rps]
    obtain c' where c': "paint_rows num_rows ?sr rps lane (py_range ?sr ?er) c = Inr c'"
      "map length c' = map length c"
      "\<And>j k. j < length c \<Longrightarrow> c' ! j ! k =
          (if k = lane \<and> int j \<in> set (py_range ?sr ?er) \<and> int j < num_rows
           then cell_code ?sr rps (int j) else c ! j ! k)"
      by blast
    have run: "paint_note tps rps num_rows lane_notes iv c = Inr c'"
      using c'(1) Some assms(1)
      by (simp add: iv floordiv_def bind_err_def start_row_of_def end_row_of_def)
    have cov: "covers tps rps lane_notes iv r k \<longleftrightarrow> k = lane \<and> r \<in> set (py_range ?sr ?er)"
      for r k
      using Some by (auto simp: covers_def iv set_py_range)
    show ?thesis
      using run c'(2) c'(3) by (simp add: cov)
  qed
qed

lemma paint_notes_append:
  "paint_notes tps rps num_rows lane_notes (xs @ ys) c =
     bind_err (paint_notes tps rps num_rows lane_notes xs c)
       (paint_notes tps rps num_rows lane_notes ys)"
proof (induction xs arbitrary: c)
  case Nil
  show ?case by (simp add: bind_err_def)
next
  case (Cons x xs)
  then show ?case
    by (cases "paint_note tps rps num_rows lane_notes x c") (simp_all add: bind_err_def)
qed

lemma paint_notes_effect:
  assumes "0 < tps" and "0 \<le> rps" and "\<forall>iv \<in> set ns. 0 \<le> fst iv"
    and "num_rows \<le> int (length c)"
    and "\<forall>w \<in> set (map length c). length lane_notes \<le> w"
  shows "\<exists>c'. paint_notes tps rps num_rows lane_notes ns c = Inr c' \<and>
           map length c' = map length c \<and>
           (\<forall>j k. j < length c \<longrightarrow>
              (\<forall>iv \<in> set ns. \<not> covers tps rps lane_notes iv (int j) k) \<longrightarrow>
              c' ! j ! k = c ! j ! k) \<and>
           (\<forall>j k. j < length c \<longrightarrow> c' ! j ! k \<in> {c ! j ! k, 1, 2})"
  using assms(3-5)
proof (induction ns arbitrary: c)
  case Nil
  show ?case by simp
next
  case (Cons iv ns)
  from Cons.prems have "0 \<le> fst iv" by simp
  moreover have "\<forall>w \<in> set (map length c). lane < w"
    if "index_of lane_notes (snd (snd iv)) = Some lane" for lane
    using index_of_less [OF that] Cons.prems(3) by fastforce
  ultimately obtain c1 where c1: "paint_note tps rps num_rows lane_notes iv c = Inr c1"
    "map length c1 = map length c"
    "\<And>j k. j < length c \<Longrightarrow> c1 ! j ! k =
        (if covers tps rps lane_notes iv (int j) k \<and> int j < num_rows
         then cell_code (start_row_of tps rps iv) rps (int j) else c ! j ! k)"
    using paint_note_effect [OF assms(1,2) _ Cons.prems(2), of iv lane_notes] by blast
  from c1(2) have len: "length c1 = length c"
    by (rule map_eq_imp_length_eq)
  from Cons.IH [of c1] Cons.prems c1(2) len
  obtain c' where c': "paint_notes tps rps num_rows lane_notes ns c1 = Inr c'"
    "map length c' = map length c1"
    "\<And>j k. j < length c \<Longrightarrow> \<forall>iv \<in> set ns. \<not> covers tps rps lane_notes iv (int j) k \<Longrightarrow>
        c' ! j ! k = c1 ! j ! k"
    "\<And>j k. j < length c \<Longrightarrow> c' ! j ! k \<in> {c1 ! j ! k, 1, 2}"
    by auto
  have run: "paint_notes tps rps num_rows lane_notes (iv # ns) c = Inr c'"
    using c1(1) c'(1) by (simp add: bind_err_def)
  have frame: "c' ! j ! k = c ! j ! k"
    if "j < length c" "\<forall>x \<in> set (iv # ns). \<not> covers tps rps lane_notes x (int j) k" for j k
    using that c'(3) [of j k] c1(3) [of j k] by simp
  have vals: "c' ! j ! k \<in> {c ! j ! k, 1, 2}" if "j < length c" for j k
    using that c'(4) [of j k] c1(3) [of j k] by (auto simp: cell_code_def)
  show ?case
    using run c'(2) c1(2) frame vals by auto
qed

lemma paint_notes_last_write:
  assumes "0 < tps" and "0 \<le> rps" and "\<forall>iv \<in> set (xs @ b # ys). 0 \<le> fst iv"
    and "num_rows \<le> int (length c)"
    and "\<forall>w \<in> set (map length c). length lane_notes \<le> w"
    and "covers tps rps lane_notes b (int j) k" and "int j < num_rows"
    and "\<forall>iv \<in> set ys. \<not> covers tps rps lane_notes iv (int j) k"
  shows "\<exists>c'. paint_notes tps rps num_rows lane_notes (xs @ b # ys) c = Inr c' \<and>
           map length c' = map length c \<and>
           c' ! j ! k = cell_code (start_row_of tps rps b) rps (int j)"
proof -
  from assms(3) have pos: "\<forall>iv \<in> set xs. 0 \<le> fst iv" "0 \<le> fst b" "\<forall>iv \<in> set ys. 0 \<le> fst iv"
    by auto
  from assms(4,7) have j: "j < length c"
    by simp
  from paint_notes_effect [OF assms(1,2) pos(1) assms(4,5)]
  obtain c1 where c1: "paint_notes tps rps num_rows lane_notes xs c = Inr c1"
    "map length c1 = map length c"
    by blast
  from c1(2) have l1: "length c1 = length c"
    by (rule map_eq_imp_length_eq)
  have "\<forall>w \<in> set (map length c1). lane < w"
    if "index_of lane_notes (snd (snd b)) = Some lane" for lane
    using index_of_less [OF that] assms(5) c1(2) by fastforce
  with paint_note_effect [OF assms(1,2) pos(2), of num_rows c1 lane_notes] assms(4) c1(2) l1
  obtain c2 where c2: "paint_note tps rps num_rows lane_notes b c1 = Inr c2"
    "map length c2 = map length c1"
    "\<And>j k. j < length c \<Longrightarrow> c2 ! j ! k =
        (if covers tps rps lane_notes b (int j) k \<and> int j < num_rows
         then cell_code (start_row_of tps rps b) rps (int j) else c1 ! j ! k)"
    by auto
  from c2(2) l1 have l2: "length c2 = length c"
    using map_eq_imp_length_eq by fastforce
  from paint_notes_effect [OF assms(1,2) pos(3), of num_rows c2 lane_notes] assms(4,5) c2(2) c1(2) l2
  obtain c' where c': "paint_notes tps rps num_rows lane_notes ys c2 = Inr c'"
    "map length c' = map length c2"
    "\<And>j k. j < length c \<Longrightarrow> \<forall>iv \<in> set ys. \<not> covers tps rps lane_notes iv (int j) k \<Longrightarrow>
        c' ! j ! k = c2 ! j ! k"
    by auto
  have "paint_notes tps rps num_rows lane_notes (xs @ b # ys) c = Inr c'"
    using c1(1) c2(1) c'(1) by (simp add: paint_notes_append bind_err_def)
  moreover have "c' ! j ! k = cell_code (start_row_of tps rps b) rps (int j)"
    using c'(3) [OF j assms(8)] c2(3) [OF j, of k] assms(6,7) by simp
  ultimately show ?thesis
    using c'(2) c2(2) c1(2) by simp
qed

lemma fold_max_start: "(a::int) \<le> fold max xs a"
proof (induction xs arbitrary: a)
  case Nil
  show ?case by simp
next
  case (Cons x xs)
  have "a \<le> max x a" by simp
  also have "\<dots> \<le> fold max xs (max x a)" by (rule Cons.IH)
  finally show ?case by simp
qed

lemma fold_max_member: "x \<in> set xs \<Longrightarrow> (x::int) \<le> fold max xs a"
proof (induction xs arbitrary: a)
  case Nil
  then show ?case by simp
next
  case (Cons y ys)
  show ?case
  proof (cases "x = y")
    case True
    have "x \<le> max y a" using True by simp
    also have "\<dots> \<le> fold max ys (max y a)" by (rule fold_max_start)
    finally show ?thesis by simp
  next
    case False
    with Cons.prems have "x \<in> set ys" by simp
    then show ?thesis using Cons.IH by simp
  qed
qed

lemma max_end_upper: "iv \<in> set (n # ns) \<Longrightarrow> fst (snd iv) \<le> max_end n ns"
proof (cases "iv = n")
  case True
  then show ?thesis by (simp add: fold_max_start)
next
  case False
  assume "iv \<in> set (n # ns)"
  with False have "iv \<in> set ns" by simp
  moreover have "(\<lambda>(s, e, k). e) = (\<lambda>x :: interval. fst (snd x))"
    by (rule ext) (simp split: prod.splits)
  ultimately have "fst (snd iv) \<in> set (map (\<lambda>(s, e, k). e) ns)"
    by simp
  then show ?thesis
    unfolding max_end.simps by (rule fold_max_member)
qed

lemma end_row_below:
  assumes "0 < tps" and "0 < rps" and "iv \<in> set (n # ns)"
  shows "end_row_of tps rps iv < (max_end n ns div tps + 1) * rps"
proof -
  obtain s e k where iv: "iv = (s, e, k)" by (cases iv)
  have "e \<le> max_end n ns"
    using max_end_upper [OF assms(3)] iv by simp
  then have "e div tps \<le> max_end n ns div tps"
    by (rule zdiv_mono1) (rule assms(1))
  then have "(e div tps) * rps \<le> (max_end n ns div tps) * rps"
    using assms(2) by (simp add: mult_right_mono)
  also have "\<dots> < (max_end n ns div tps + 1) * rps"
    using assms(2) by (simp add: distrib_right)
  finally show ?thesis
    by (simp add: end_row_of_def iv)
qed

lemma paint_rows_bound_irrelevant:
  "\<forall>row \<in> set rows. row < num_rows \<Longrightarrow> num_rows \<le> m \<Longrightarrow>
     paint_rows num_rows sr rps lane rows c = paint_rows m sr rps lane rows c"
proof (induction rows arbitrary: c)
  case Nil
  show ?case by simp
next
  case (Cons row rows)
  then have "row < num_rows" "row < m"
    by auto
  moreover have "paint_rows num_rows sr rps lane rows = paint_rows m sr rps lane rows"
    using Cons by (intro ext) simp
  ultimately show ?case
    by simp
qed

lemma paint_note_bound_irrelevant:
  assumes "0 < tps" and "0 < rps" and "iv \<in> set (n # ns)"
    and "(max_end n ns div tps + 1) * rps \<le> m"
  shows "paint_note tps rps ((max_end n ns div tps + 1) * rps) lane_notes iv c =
    paint_note tps rps m lane_notes iv c"
proof -
  obtain s e k where iv: "iv = (s, e, k)" by (cases iv)
  let ?num_rows = "(max_end n ns div tps + 1) * rps"
  have "end_row_of tps rps iv < ?num_rows"
    using assms(1-3) by (rule end_row_below)
  then have "\<forall>row \<in> set (py_range ((s div tps) * rps) ((e div tps) * rps)). row < ?num_rows"
    by (auto simp: set_py_range end_row_of_def iv)
  then have "paint_rows ?num_rows sr rps lane (py_range ((s div tps) * rps) ((e div tps) * rps)) c =
      paint_rows m sr rps lane (py_range ((s div tps) * rps) ((e div tps) * rps)) c" for sr lane
    using assms(4) by (rule paint_rows_bound_irrelevant)
  then show ?thesis
    using assms(1) by (simp add: iv floordiv_def bind_err_def split: option.splits)
qed

lemma paint_notes_bound_irrelevant:
  assumes "0 < tps" and "0 < rps" and "set xs \<subseteq> set (n # ns)"
    and "(max_end n ns div tps + 1) * rps \<le> m"
  shows "paint_notes tps rps ((max_end n ns div tps + 1) * rps) lane_notes xs c =
    paint_notes tps rps m lane_notes xs c"
  using assms(3)
proof (induction xs arbitrary: c)
  case Nil
  show ?case by simp
next
  case (Cons iv xs)
  then have "iv \<in> set (n # ns)" and sub: "set xs \<subseteq> set (n # ns)"
    by auto
  from paint_note_bound_irrelevant [OF assms(1,2) this(1) assms(4)]
  have "paint_note tps rps ((max_end n ns div tps + 1) * rps) lane_notes iv c =
      paint_note tps rps m lane_notes iv c" .
  moreover have "paint_notes tps rps ((max_end n ns div tps + 1) * rps) lane_notes xs =
      paint_notes tps rps m lane_notes xs"
    using Cons.IH [OF sub] by (intro ext)
  ultimately show ?case
    by (simp del: paint_note.simps)
qed

lemma empty_chart_widths: "\<forall>w \<in> set (map length (empty_chart num_rows)). w = 4"
  by (simp add: empty_chart_def)

lemma empty_chart_length: "num_rows \<le> int (length (empty_chart num_rows))"
  by (simp add: empty_chart_def)

section \<open>Row expansion: the claims\<close>

text \<open>
  C10. For a non-empty list of intervals and positive \<^verbatim>\<open>ticks_per_step\<close> and
  \<^verbatim>\<open>rows_per_step\<close>, \<^verbatim>\<open>num_rows\<close> is \<open>(max_end div ticks_per_step + 1) * rows_per_step\<close>
  and every row that \<^verbatim>\<open>range(start_row, end_row)\<close> yields for an interval of the list
  is below it. The test \<^verbatim>\<open>row < num_rows\<close> of line 63 therefore never fails: the pass for
  an interval of the list, and the whole loop over the list, return the same result
  when the test compares with any larger bound \<open>m\<close> instead, on every chart.
\<close>

theorem rows_within_chart:
  assumes "0 < tps" and "0 < rps" and "(s, e, k) \<in> set (n # ns)"
    and "num_rows = (max_end n ns div tps + 1) * rps" and "num_rows \<le> m"
  shows "chart_rows tps rps n ns = Inr num_rows \<and>
    (\<forall>r \<in> set (py_range ((s div tps) * rps) ((e div tps) * rps)). r < num_rows) \<and>
    paint_note tps rps num_rows lane_notes (s, e, k) c =
      paint_note tps rps m lane_notes (s, e, k) c \<and>
    paint_notes tps rps num_rows lane_notes (n # ns) c =
      paint_notes tps rps m lane_notes (n # ns) c"
proof (intro conjI ballI)
  show "chart_rows tps rps n ns = Inr num_rows"
    using assms(1,4) by (simp add: chart_rows_def floordiv_def bind_err_def)
  show "r < num_rows" if "r \<in> set (py_range ((s div tps) * rps) ((e div tps) * rps))" for r
  proof -
    have "r < end_row_of tps rps (s, e, k)"
      using that by (simp add: set_py_range end_row_of_def)
    also have "\<dots> < (max_end n ns div tps + 1) * rps"
      using assms(1-3) by (rule end_row_below)
    finally show ?thesis
      using assms(4) by simp
  qed
  show "paint_note tps rps num_rows lane_notes (s, e, k) c =
      paint_note tps rps m lane_notes (s, e, k) c"
    unfolding assms(4)
    using assms(1-3) assms(5) [unfolded assms(4)] by (rule paint_note_bound_irrelevant)
  show "paint_notes tps rps num_rows lane_notes (n # ns) c =
      paint_notes tps rps m lane_notes (n # ns) c"
    unfolding assms(4)
    using assms(1,2) subset_refl assms(5) [unfolded assms(4)] by (rule paint_notes_bound_irrelevant)
qed

theorem rows_within_chart_witness:
  "(0::int) < 120 \<and> (0::int) < 4 \<and> (130, 250, 61) \<in> set [(0, 480, 60), (130, 250, 61) :: interval] \<and>
   (20::int) = (max_end (0, 480, 60) [(130, 250, 61)] div 120 + 1) * 4 \<and> (20::int) \<le> 1000 \<and>
   7 \<in> set (py_range ((130 div 120) * 4) ((250 div 120) * 4)) \<and>
   chart_rows 120 4 (0, 480, 60) [(130, 250, 61)] = Inr 20 \<and> (7::int) < 20 \<and>
   paint_notes 120 4 20 [60, 61, 62, 63] [(0, 480, 60), (130, 250, 61)] (empty_chart 20) =
     paint_notes 120 4 1000 [60, 61, 62, 63] [(0, 480, 60), (130, 250, 61)] (empty_chart 20)"
proof -
  have h: "(0::int) < 120" "(0::int) < 4"
    "(130, 250, 61) \<in> set [(0, 480, 60), (130, 250, 61) :: interval]"
    "(20::int) = (max_end (0, 480, 60) [(130, 250, 61)] div 120 + 1) * 4" "(20::int) \<le> 1000"
    by simp_all
  have r: "7 \<in> set (py_range ((130 div 120) * 4) ((250 div 120) * 4))"
    by (simp add: py_range_def)
  note t = rows_within_chart [OF h, of "[60, 61, 62, 63]" "empty_chart 20"]
  from t have rows: "chart_rows 120 4 (0, 480, 60) [(130, 250, 61)] = Inr 20"
    by (rule conjunct1)
  from t have "\<forall>r \<in> set (py_range ((130 div 120) * 4) ((250 div 120) * 4)). r < 20"
    by (elim conjE)
  then have below: "(7::int) < 20"
    using r by (rule bspec)
  from t have same:
    "paint_notes 120 4 20 [60, 61, 62, 63] [(0, 480, 60), (130, 250, 61)] (empty_chart 20) =
     paint_notes 120 4 1000 [60, 61, 62, 63] [(0, 480, 60), (130, 250, 61)] (empty_chart 20)"
    by (elim conjE)
  from h r rows below same show ?thesis
    by (intro conjI)
qed

text \<open>
  C1. Take positive \<^verbatim>\<open>ticks_per_step\<close> and \<^verbatim>\<open>rows_per_step\<close>, an interval with a
  non-negative start tick whose note \<^verbatim>\<open>lane_notes.index\<close> places in lane \<open>lane\<close> (one
  of the four columns), and a chart of \<^verbatim>\<open>num_rows\<close> rows of width 4. One pass of the
  loop returns a chart of the same length in which every row \<open>r\<close> of
  \<open>[start_row, end_row)\<close> below \<^verbatim>\<open>num_rows\<close> holds head (2) in that lane when
  \<open>r < start_row + rows_per_step\<close> and tail (1) otherwise, and every other cell is
  unchanged. With 480 ticks per beat and subdivision 4 the step is 120 ticks, and the
  lane-0 interval over ticks 0 to 240 gives heads in rows 0 to 3, tails in rows 4 to 7
  and nothing in rows 8 to 11.
\<close>

theorem head_then_tail:
  assumes "0 < tps" and "0 < rps" and "index_of lane_notes n = Some lane" and "lane < 4"
    and "0 \<le> s" and "\<forall>row \<in> set c. length row = 4" and "length c = nat num_rows"
  shows "(\<exists>c'. paint_note tps rps num_rows lane_notes (s, e, n) c = Inr c' \<and>
      length c' = length c \<and>
      (\<forall>r. (s div tps) * rps \<le> r \<and> r < (e div tps) * rps \<and> r < num_rows \<longrightarrow>
         c' ! nat r ! lane = (if r < (s div tps) * rps + rps then 2 else 1)) \<and>
      (\<forall>j k. j < length c \<and>
         \<not> (k = lane \<and> (s div tps) * rps \<le> int j \<and> int j < (e div tps) * rps) \<longrightarrow>
         c' ! j ! k = c ! j ! k)) \<and>
    floordiv 480 4 = Inr 120 \<and>
    build_chart 120 4 [60, 61, 62, 63] (0, 240, 60) [] =
      Inr [[2, 0, 0, 0], [2, 0, 0, 0], [2, 0, 0, 0], [2, 0, 0, 0],
           [1, 0, 0, 0], [1, 0, 0, 0], [1, 0, 0, 0], [1, 0, 0, 0],
           [0, 0, 0, 0], [0, 0, 0, 0], [0, 0, 0, 0], [0, 0, 0, 0]]"
proof -
  let ?iv = "(s, e, n)"
  have rows: "num_rows \<le> int (length c)"
    using assms(7) by simp
  have wide: "\<forall>w \<in> set (map length c). l < w"
    if "index_of lane_notes (snd (snd ?iv)) = Some l" for l
    using that assms(3,4,6) by simp
  have "0 \<le> rps" "0 \<le> fst ?iv"
    using assms(2,5) by simp_all
  from paint_note_effect [OF assms(1) this rows wide]
  obtain c' where c': "paint_note tps rps num_rows lane_notes ?iv c = Inr c'"
    "map length c' = map length c"
    "\<And>j k. j < length c \<Longrightarrow> c' ! j ! k =
        (if covers tps rps lane_notes ?iv (int j) k \<and> int j < num_rows
         then cell_code (start_row_of tps rps ?iv) rps (int j) else c ! j ! k)"
    by blast
  have len: "length c' = length c"
    using c'(2) by (rule map_eq_imp_length_eq)
  have sr: "0 \<le> (s div tps) * rps"
    using assms(1,2,5) by (simp add: pos_imp_zdiv_nonneg_iff)
  have cov: "covers tps rps lane_notes ?iv r k \<longleftrightarrow>
      k = lane \<and> (s div tps) * rps \<le> r \<and> r < (e div tps) * rps" for r k
    using assms(3) by (auto simp: covers_def start_row_of_def end_row_of_def)
  have painted: "c' ! nat r ! lane = (if r < (s div tps) * rps + rps then 2 else 1)"
    if "(s div tps) * rps \<le> r" "r < (e div tps) * rps" "r < num_rows" for r
  proof -
    from that sr have "0 \<le> r" "nat r < length c"
      using assms(7) by auto
    then show ?thesis
      using c'(3) [of "nat r" lane] that
      by (simp add: cov cell_code_def start_row_of_def)
  qed
  have frame: "c' ! j ! k = c ! j ! k"
    if "j < length c" "\<not> (k = lane \<and> (s div tps) * rps \<le> int j \<and> int j < (e div tps) * rps)"
    for j k
    using c'(3) [OF that(1), of k] that(2) by (simp add: cov)
  have general: "\<exists>c'. paint_note tps rps num_rows lane_notes (s, e, n) c = Inr c' \<and>
      length c' = length c \<and>
      (\<forall>r. (s div tps) * rps \<le> r \<and> r < (e div tps) * rps \<and> r < num_rows \<longrightarrow>
         c' ! nat r ! lane = (if r < (s div tps) * rps + rps then 2 else 1)) \<and>
      (\<forall>j k. j < length c \<and>
         \<not> (k = lane \<and> (s div tps) * rps \<le> int j \<and> int j < (e div tps) * rps) \<longrightarrow>
         c' ! j ! k = c ! j ! k)"
    using c'(1) len painted frame by blast
  have step: "floordiv 480 4 = Inr 120"
    by (simp add: floordiv_def)
  have example: "build_chart 120 4 [60, 61, 62, 63] (0, 240, 60) [] =
      Inr [[2, 0, 0, 0], [2, 0, 0, 0], [2, 0, 0, 0], [2, 0, 0, 0],
           [1, 0, 0, 0], [1, 0, 0, 0], [1, 0, 0, 0], [1, 0, 0, 0],
           [0, 0, 0, 0], [0, 0, 0, 0], [0, 0, 0, 0], [0, 0, 0, 0]]"
    by code_simp
  from general step example show ?thesis
    by (intro conjI)
qed

theorem head_then_tail_witness:
  "(0::int) < 120 \<and> (0::int) < 4 \<and> index_of [60, 61, 62, 63] 61 = Some 1 \<and> (1::nat) < 4 \<and>
   (0::int) \<le> 130 \<and> length (empty_chart 12) = nat 12 \<and>
   (\<exists>c'. paint_note 120 4 12 [60, 61, 62, 63] (130, 400, 61) (empty_chart 12) = Inr c' \<and>
      c' ! 4 ! 1 = 2 \<and> c' ! 7 ! 1 = 2 \<and> c' ! 8 ! 1 = 1 \<and> c' ! 11 ! 1 = 1 \<and>
      c' ! 3 ! 1 = 0 \<and> c' ! 4 ! 0 = 0)"
proof -
  have w: "\<forall>row \<in> set (empty_chart 12). length row = 4"
    and l: "length (empty_chart 12) = nat 12"
    by (simp_all add: empty_chart_def)
  have i: "index_of [60, 61, 62, 63] 61 = Some 1"
    by simp
  have "\<exists>c'. paint_note 120 4 12 [60, 61, 62, 63] (130, 400, 61) (empty_chart 12) = Inr c' \<and>
      length c' = length (empty_chart 12) \<and>
      (\<forall>r. (130 div 120) * 4 \<le> r \<and> r < (400 div 120) * 4 \<and> r < 12 \<longrightarrow>
         c' ! nat r ! 1 = (if r < (130 div 120) * 4 + 4 then 2 else 1)) \<and>
      (\<forall>j k. j < length (empty_chart 12) \<and>
         \<not> (k = 1 \<and> (130 div 120) * 4 \<le> int j \<and> int j < (400 div 120) * 4) \<longrightarrow>
         c' ! j ! k = empty_chart 12 ! j ! k)"
    using head_then_tail [OF _ _ i _ _ w l, of 120 4 130 400] by simp
  then obtain c' where c': "paint_note 120 4 12 [60, 61, 62, 63] (130, 400, 61) (empty_chart 12) = Inr c'"
    and p: "\<forall>r. (130 div 120) * 4 \<le> r \<and> r < (400 div 120) * 4 \<and> r < 12 \<longrightarrow>
         c' ! nat r ! 1 = (if r < (130 div 120) * 4 + 4 then 2 else 1)"
    and f: "\<forall>j k. j < length (empty_chart 12) \<and>
         \<not> (k = 1 \<and> (130 div 120) * 4 \<le> int j \<and> int j < (400 div 120) * 4) \<longrightarrow>
         c' ! j ! k = empty_chart 12 ! j ! k"
    by blast
  have "c' ! 4 ! 1 = 2" "c' ! 7 ! 1 = 2" "c' ! 8 ! 1 = 1" "c' ! 11 ! 1 = 1"
    using p [rule_format, of 4] p [rule_format, of 7] p [rule_format, of 8] p [rule_format, of 11]
    by simp_all
  moreover have "c' ! 3 ! 1 = 0" "c' ! 4 ! 0 = 0"
    using f [rule_format, of 3 1] f [rule_format, of 4 0] by (simp_all add: empty_chart_def)
  moreover have "(0::int) < 120" "(0::int) < 4" "(1::nat) < 4" "(0::int) \<le> 130"
    by simp_all
  ultimately show ?thesis
    using c' i l by blast
qed

text \<open>
  C7, as stated, fails. Three intervals of lane 0 cover row 8. The first and the second
  are a pair as the claim describes, the second after the first, and the second paints
  tail (1) there; the third, processed last, paints head (2), and that is what the chart
  holds.
\<close>

theorem last_write_overwritten_counterexample:
  "covers 120 4 [60, 61, 62, 63] (0, 480, 60) 8 0 \<and>
   covers 120 4 [60, 61, 62, 63] (120, 480, 60) 8 0 \<and>
   cell_code (start_row_of 120 4 (120, 480, 60)) 4 8 = 1 \<and>
   build_chart 120 4 [60, 61, 62, 63] (0, 480, 60) [(120, 480, 60), (240, 480, 60)] =
     Inr [[2, 0, 0, 0], [2, 0, 0, 0], [2, 0, 0, 0], [2, 0, 0, 0],
          [2, 0, 0, 0], [2, 0, 0, 0], [2, 0, 0, 0], [2, 0, 0, 0],
          [2, 0, 0, 0], [2, 0, 0, 0], [2, 0, 0, 0], [2, 0, 0, 0],
          [1, 0, 0, 0], [1, 0, 0, 0], [1, 0, 0, 0], [1, 0, 0, 0],
          [0, 0, 0, 0], [0, 0, 0, 0], [0, 0, 0, 0], [0, 0, 0, 0]] \<and>
   [[2, 0, 0, 0], [2, 0, 0, 0], [2, 0, 0, 0], [2, 0, 0, 0],
    [2, 0, 0, 0], [2, 0, 0, 0], [2, 0, 0, 0], [2, 0, 0, 0],
    [2, 0, 0, 0], [2, 0, 0, 0], [2, 0, 0, 0], [2, 0, 0, 0],
    [1, 0, 0, 0], [1, 0, 0, 0], [1, 0, 0, 0], [1, 0, 0, 0],
    [0, 0, 0, 0], [0, 0, 0, 0], [0, 0, 0, 0], [0, 0, 0, 0 :: int]] ! 8 ! 0 = 2"
proof -
  have a: "covers 120 4 [60, 61, 62, 63] (0, 480, 60) 8 0"
    and b: "covers 120 4 [60, 61, 62, 63] (120, 480, 60) 8 0"
    by (simp_all add: covers_def start_row_of_def end_row_of_def)
  have code: "cell_code (start_row_of 120 4 (120, 480, 60)) 4 8 = 1"
    by (simp add: cell_code_def start_row_of_def)
  have built: "build_chart 120 4 [60, 61, 62, 63] (0, 480, 60) [(120, 480, 60), (240, 480, 60)] =
     Inr [[2, 0, 0, 0], [2, 0, 0, 0], [2, 0, 0, 0], [2, 0, 0, 0],
          [2, 0, 0, 0], [2, 0, 0, 0], [2, 0, 0, 0], [2, 0, 0, 0],
          [2, 0, 0, 0], [2, 0, 0, 0], [2, 0, 0, 0], [2, 0, 0, 0],
          [1, 0, 0, 0], [1, 0, 0, 0], [1, 0, 0, 0], [1, 0, 0, 0],
          [0, 0, 0, 0], [0, 0, 0, 0], [0, 0, 0, 0], [0, 0, 0, 0]]"
    by code_simp
  have cell: "[[2, 0, 0, 0], [2, 0, 0, 0], [2, 0, 0, 0], [2, 0, 0, 0],
    [2, 0, 0, 0], [2, 0, 0, 0], [2, 0, 0, 0], [2, 0, 0, 0],
    [2, 0, 0, 0], [2, 0, 0, 0], [2, 0, 0, 0], [2, 0, 0, 0],
    [1, 0, 0, 0], [1, 0, 0, 0], [1, 0, 0, 0], [1, 0, 0, 0],
    [0, 0, 0, 0], [0, 0, 0, 0], [0, 0, 0, 0], [0, 0, 0, 0 :: int]] ! 8 ! 0 = 2"
    by simp
  from a b code built cell show ?thesis
    by (intro conjI)
qed

text \<open>
  C7, amended. Let two intervals \<open>a\<close> and \<open>b\<close> of the pooled list both cover row \<open>r\<close>
  of lane \<open>lane\<close>, \<open>b\<close> after \<open>a\<close>, and let no interval after \<open>b\<close> cover that cell.
  Then the chart is built without error and the cell holds the code \<open>b\<close> paints there:
  the last interval to cover a cell decides it.
\<close>

theorem last_write_wins:
  assumes "0 < tps" and "0 < rps" and "length lane_notes \<le> 4"
    and "\<forall>iv \<in> set (n # ns). 0 \<le> fst iv"
    and "n # ns = xs @ a # ys @ b # zs"
    and "covers tps rps lane_notes a r lane"
    and "covers tps rps lane_notes b r lane"
    and "\<forall>iv \<in> set zs. \<not> covers tps rps lane_notes iv r lane"
  shows "\<exists>chart. build_chart tps rps lane_notes n ns = Inr chart \<and>
      0 \<le> r \<and> nat r < length chart \<and>
      chart ! nat r ! lane = cell_code (start_row_of tps rps b) rps r"
proof -
  let ?num_rows = "(max_end n ns div tps + 1) * rps"
  let ?c = "empty_chart ?num_rows"
  have rows: "chart_rows tps rps n ns = Inr ?num_rows"
    using assms(1) by (simp add: chart_rows_def floordiv_def bind_err_def)
  have split: "n # ns = (xs @ a # ys) @ b # zs"
    using assms(5) by simp
  then have b: "b \<in> set (n # ns)"
    by simp
  have "0 \<le> start_row_of tps rps b"
    using assms(1,2,4) b by (intro start_row_nonneg) auto
  with assms(7) have r0: "0 \<le> r"
    by (simp add: covers_def)
  have "r < end_row_of tps rps b"
    using assms(7) by (simp add: covers_def)
  also have "\<dots> < ?num_rows"
    using assms(1,2) b by (rule end_row_below)
  finally have r1: "r < ?num_rows" .
  have wide: "\<forall>w \<in> set (map length ?c). length lane_notes \<le> w"
    using assms(3) by (simp add: empty_chart_def)
  have pos: "\<forall>iv \<in> set ((xs @ a # ys) @ b # zs). 0 \<le> fst iv"
    using assms(4) split by simp
  have "0 \<le> rps" "covers tps rps lane_notes b (int (nat r)) lane" "int (nat r) < ?num_rows"
    "\<forall>iv \<in> set zs. \<not> covers tps rps lane_notes iv (int (nat r)) lane"
    using assms(2,7,8) r0 r1 by simp_all
  from paint_notes_last_write [OF assms(1) this(1) pos empty_chart_length wide this(2-4)] r0
  obtain c' where c': "paint_notes tps rps ?num_rows lane_notes ((xs @ a # ys) @ b # zs) ?c = Inr c'"
    "map length c' = map length ?c"
    "c' ! nat r ! lane = cell_code (start_row_of tps rps b) rps r"
    by auto
  have "length c' = length ?c"
    using c'(2) by (rule map_eq_imp_length_eq)
  with r0 r1 have "nat r < length c'"
    by (simp add: empty_chart_def)
  moreover have "build_chart tps rps lane_notes n ns = Inr c'"
    using rows c'(1) split by (simp add: build_chart_def bind_err_def)
  ultimately show ?thesis
    using c'(3) r0 by simp
qed

theorem last_write_wins_witness:
  "(0::int) < 120 \<and> (0::int) < 4 \<and> length [60, 61, 62, 63 :: int] \<le> 4 \<and>
   covers 120 4 [60, 61, 62, 63] (0, 480, 60) 8 0 \<and>
   covers 120 4 [60, 61, 62, 63] (240, 480, 60) 8 0 \<and>
   cell_code (start_row_of 120 4 (0, 480, 60)) 4 8 = 1 \<and>
   cell_code (start_row_of 120 4 (240, 480, 60)) 4 8 = 2 \<and>
   (\<exists>chart. build_chart 120 4 [60, 61, 62, 63] (0, 480, 60) [(240, 480, 60)] = Inr chart \<and>
      chart ! 8 ! 0 = 2)"
proof -
  have a: "covers 120 4 [60, 61, 62, 63] (0, 480, 60) 8 0"
    and b: "covers 120 4 [60, 61, 62, 63] (240, 480, 60) 8 0"
    by (simp_all add: covers_def start_row_of_def end_row_of_def)
  have codes: "cell_code (start_row_of 120 4 (0, 480, 60)) 4 8 = 1"
    "cell_code (start_row_of 120 4 (240, 480, 60)) 4 8 = 2"
    by (simp_all add: cell_code_def start_row_of_def)
  have pos: "\<forall>iv \<in> set [(0, 480, 60), (240, 480, 60) :: interval]. 0 \<le> fst iv"
    by simp
  have split: "[(0, 480, 60), (240, 480, 60)] = [] @ (0, 480, 60) # [] @ (240, 480, 60) # ([] :: interval list)"
    by simp
  have last: "\<forall>iv \<in> set ([] :: interval list). \<not> covers 120 4 [60, 61, 62, 63] iv 8 0"
    by simp
  have "\<exists>chart. build_chart 120 4 [60, 61, 62, 63] (0, 480, 60) [(240, 480, 60)] = Inr chart \<and>
      0 \<le> (8::int) \<and> nat 8 < length chart \<and>
      chart ! nat 8 ! 0 = cell_code (start_row_of 120 4 (240, 480, 60)) 4 8"
    by (rule last_write_wins [OF _ _ _ pos split a b last]) simp_all
  then show ?thesis
    using a b codes by auto
qed


section \<open>Serialization: lines and their decoding\<close>

lemma bin_digits_small:
  "bin_digits 0 = ''0''" "bin_digits 1 = ''1''" "bin_digits (Suc 0) = ''1''" "bin_digits 2 = ''10''"
  by (simp_all add: bin_digits.simps [of 0] bin_digits.simps [of 1] bin_digits.simps [of 2]
      bin_digits.simps [of "Suc 0"])

lemma format_02b_code: "v \<in> {0, 1, 2} \<Longrightarrow> format_02b v = two_bit v"
  by (auto simp: format_02b_def two_bit_def bin_digits_small)

lemma length_two_bit: "length (two_bit v) = 2"
  by (simp add: two_bit_def)

lemma decode_two_bit: "v \<in> {0, 1, 2} \<Longrightarrow> decode_field (two_bit v) = Some v"
  by (auto simp: decode_field_def two_bit_def)

lemma two_bit_digits: "set (two_bit v) \<subseteq> {CHR ''0'', CHR ''1''}"
  by (simp add: two_bit_def)

lemma two_bit_not_11: "two_bit v \<noteq> ''11''"
  by (simp add: two_bit_def)

lemma valid_row_cases:
  assumes "valid_row row"
  obtains a b c d where "row = [a, b, c, d]"
    and "a \<in> {0, 1, 2}" and "b \<in> {0, 1, 2}" and "c \<in> {0, 1, 2}" and "d \<in> {0, 1, 2}"
proof -
  from assms have "length row = 4" and vals: "set row \<subseteq> {0, 1, 2}"
    by (simp_all add: valid_row_def)
  then obtain a b c d where row: "row = [a, b, c, d]"
    by (auto simp: length_Suc_conv eval_nat_numeral)
  with vals that show ?thesis
    by simp
qed

lemma render_valid_row:
  assumes "valid_row row"
  shows "render_line row = concat (map two_bit row)"
    and "line_fields (render_line row) = map two_bit row"
    and "length (render_line row) = 8"
proof -
  from assms obtain a b c d where row: "row = [a, b, c, d]"
    and v: "a \<in> {0, 1, 2}" "b \<in> {0, 1, 2}" "c \<in> {0, 1, 2}" "d \<in> {0, 1, 2}"
    by (rule valid_row_cases)
  show r: "render_line row = concat (map two_bit row)"
    using v by (simp add: row render_line_def format_02b_code)
  show "line_fields (render_line row) = map two_bit row"
    unfolding r by (simp add: row line_fields_def length_two_bit)
  show "length (render_line row) = 8"
    unfolding r by (simp add: row length_two_bit)
qed

lemma decode_render_line: "valid_row row \<Longrightarrow> decode_line (render_line row) = Some row"
proof -
  assume a: "valid_row row"
  then obtain a b c d where row: "row = [a, b, c, d]"
    and v: "a \<in> {0, 1, 2}" "b \<in> {0, 1, 2}" "c \<in> {0, 1, 2}" "d \<in> {0, 1, 2}"
    by (rule valid_row_cases)
  show ?thesis
    using render_valid_row(2,3) [OF a] v
    by (simp add: decode_line_def row decode_two_bit)
qed

lemma fold_write: "fold (\<lambda>row f. f @ g row) chart acc = acc @ concat (map g chart)"
  by (induction chart arbitrary: acc) simp_all

lemma write_chart_lines:
  "write_chart chart = concat (map (\<lambda>row. render_line row @ [CHR 0x0A]) chart)"
  by (simp add: write_chart_def fold_write)

lemma decode_write_chart:
  "\<forall>row \<in> set chart. valid_row row \<Longrightarrow> decode_chart (write_chart chart) = Some chart"
proof (induction chart)
  case Nil
  show ?case by (simp add: write_chart_lines decode_chart.simps)
next
  case (Cons row chart)
  then have v: "valid_row row" and rest: "decode_chart (write_chart chart) = Some chart"
    by simp_all
  have l: "length (render_line row) = 8"
    using v by (rule render_valid_row(3))
  have w: "write_chart (row # chart) = render_line row @ CHR 0x0A # write_chart chart"
    by (simp add: write_chart_lines)
  show ?case
    unfolding w
    using l rest decode_render_line [OF v]
    by (subst decode_chart.simps) (simp add: nth_append)
qed

lemma bind_err_Inr: "bind_err r f = Inr y \<longleftrightarrow> (\<exists>x. r = Inr x \<and> f x = Inr y)"
  by (cases r) (simp_all add: bind_err_def)

lemma set_cell_valid:
  assumes "set_cell c row lane v = Inr c'" and "\<forall>r \<in> set c. valid_row r" and "v \<in> {0, 1, 2}"
  shows "\<forall>r \<in> set c'. valid_row r"
proof -
  from assms(1) obtain i where i: "py_index c row = Inr i"
    and c': "c' = c[i := (c ! i)[lane := v]]"
    by (auto simp: set_cell_def bind_err_Inr split: if_splits)
  from i have "i < length c"
    by (auto simp: py_index_def split: if_splits)
  with assms(2) have "valid_row (c ! i)"
    by simp
  then have "valid_row ((c ! i)[lane := v])"
    using assms(3) set_update_subset_insert [of "c ! i" lane v]
    by (auto simp: valid_row_def)
  then show ?thesis
    using assms(2) set_update_subset_insert [of c i "(c ! i)[lane := v]"]
    unfolding c' by auto
qed

lemma paint_rows_valid:
  "paint_rows num_rows sr rps lane rows c = Inr c' \<Longrightarrow> \<forall>r \<in> set c. valid_row r \<Longrightarrow>
     \<forall>r \<in> set c'. valid_row r"
proof (induction rows arbitrary: c)
  case Nil
  then show ?case by simp
next
  case (Cons row rows)
  show ?case
  proof (cases "row < num_rows")
    case True
    with Cons.prems(1) obtain c1 where
      c1: "set_cell c row lane (cell_code sr rps row) = Inr c1"
      and r: "paint_rows num_rows sr rps lane rows c1 = Inr c'"
      by (auto simp: bind_err_Inr)
    have "\<forall>r \<in> set c1. valid_row r"
      using c1 Cons.prems(2) by (rule set_cell_valid) (simp add: cell_code_def)
    with r show ?thesis
      by (rule Cons.IH)
  next
    case False
    with Cons.prems show ?thesis
      using Cons.IH [of c] by simp
  qed
qed

lemma paint_note_valid:
  "paint_note tps rps num_rows lane_notes iv c = Inr c' \<Longrightarrow> \<forall>r \<in> set c. valid_row r \<Longrightarrow>
     \<forall>r \<in> set c'. valid_row r"
  by (cases iv) (auto simp: bind_err_Inr Let_def split: option.splits dest: paint_rows_valid)

lemma paint_notes_valid:
  "paint_notes tps rps num_rows lane_notes ns c = Inr c' \<Longrightarrow> \<forall>r \<in> set c. valid_row r \<Longrightarrow>
     \<forall>r \<in> set c'. valid_row r"
proof (induction ns arbitrary: c)
  case Nil
  then show ?case by simp
next
  case (Cons iv ns)
  from Cons.prems(1) obtain c1 where c1: "paint_note tps rps num_rows lane_notes iv c = Inr c1"
    and r: "paint_notes tps rps num_rows lane_notes ns c1 = Inr c'"
    by (auto simp: bind_err_Inr)
  have "\<forall>r \<in> set c1. valid_row r"
    using c1 Cons.prems(2) by (rule paint_note_valid)
  with r show ?case
    by (rule Cons.IH)
qed

lemma build_chart_valid:
  assumes "build_chart tps rps lane_notes n ns = Inr chart"
  shows "\<forall>r \<in> set chart. valid_row r"
proof -
  from assms obtain num_rows where
    p: "paint_notes tps rps num_rows lane_notes (n # ns) (empty_chart num_rows) = Inr chart"
    by (auto simp: build_chart_def bind_err_Inr)
  have "\<forall>r \<in> set (empty_chart num_rows). valid_row r"
    by (simp add: empty_chart_def valid_row_def)
  with p show ?thesis
    by (rule paint_notes_valid)
qed

section \<open>Serialization: the claim\<close>

text \<open>
  C2. A row of four codes in \<open>{0, 1, 2}\<close> is rendered as 8 binary digits: the fields
  \<open>00\<close>, \<open>01\<close>, \<open>10\<close> of lanes 0 to 3 in order, never \<open>11\<close>, and the line decodes back
  to the row. The file is the rendered lines in chart order, each followed by a newline
  and nothing else; for a chart of such rows it has 9 characters per row and decodes back
  to the chart. Every file the encoder writes comes from a chart of such rows.
\<close>

theorem lines_of_eight_bits:
  "(valid_row row \<longrightarrow>
      length (render_line row) = 8 \<and>
      set (render_line row) \<subseteq> {CHR ''0'', CHR ''1''} \<and>
      render_line row = two_bit (row ! 0) @ two_bit (row ! 1) @ two_bit (row ! 2) @ two_bit (row ! 3) \<and>
      line_fields (render_line row) = map two_bit row \<and>
      ''11'' \<notin> set (line_fields (render_line row)) \<and>
      decode_line (render_line row) = Some row) \<and>
   write_chart chart = concat (map (\<lambda>row. render_line row @ [CHR 0x0A]) chart) \<and>
   ((\<forall>row \<in> set chart. valid_row row) \<longrightarrow>
      length (write_chart chart) = 9 * length chart \<and>
      decode_chart (write_chart chart) = Some chart) \<and>
   (midi_to_chart mid lane_notes subdivision rows_per_step = Inr (Written out) \<longrightarrow>
      (\<exists>built. (\<forall>row \<in> set built. valid_row row) \<and> out = write_chart built))"
proof (intro conjI impI)
  assume v: "valid_row row"
  show "length (render_line row) = 8"
    using v by (rule render_valid_row(3))
  show f: "line_fields (render_line row) = map two_bit row"
    using v by (rule render_valid_row(2))
  show "set (render_line row) \<subseteq> {CHR ''0'', CHR ''1''}"
    unfolding render_valid_row(1) [OF v] using two_bit_digits by auto
  show "render_line row = two_bit (row ! 0) @ two_bit (row ! 1) @ two_bit (row ! 2) @ two_bit (row ! 3)"
    using v render_valid_row(1) [OF v] by (elim valid_row_cases) simp
  show "''11'' \<notin> set (line_fields (render_line row))"
    unfolding f by (auto simp: two_bit_def split: if_splits)
  show "decode_line (render_line row) = Some row"
    using v by (rule decode_render_line)
next
  show "write_chart chart = concat (map (\<lambda>row. render_line row @ [CHR 0x0A]) chart)"
    by (rule write_chart_lines)
next
  assume v: "\<forall>row \<in> set chart. valid_row row"
  then show "decode_chart (write_chart chart) = Some chart"
    by (rule decode_write_chart)
  from v show "length (write_chart chart) = 9 * length chart"
    unfolding write_chart_lines
    by (induction chart) (simp_all add: render_valid_row(3))
next
  assume run: "midi_to_chart mid lane_notes subdivision rows_per_step = Inr (Written out)"
  show "\<exists>built. (\<forall>row \<in> set built. valid_row row) \<and> out = write_chart built"
  proof (cases "collect_notes (tracks mid)")
    case Nil
    with run show ?thesis
      by (simp add: midi_to_chart_def bind_err_Inr)
  next
    case (Cons n ns)
    with run obtain tps built where "build_chart tps rows_per_step lane_notes n ns = Inr built"
      and "out = write_chart built"
      by (auto simp: midi_to_chart_def bind_err_Inr)
    then show ?thesis
      using build_chart_valid by blast
  qed
qed

theorem lines_of_eight_bits_witness:
  "valid_row [2, 0, 1, 0] \<and> valid_row [1, 0, 0, 2] \<and>
   render_line [2, 0, 1, 0] = ''10000100'' \<and>
   decode_line (render_line [2, 0, 1, 0]) = Some [2, 0, 1, 0] \<and>
   write_chart [[2, 0, 1, 0], [1, 0, 0, 2]] = ''10000100'' @ [CHR 0x0A] @ ''01000010'' @ [CHR 0x0A] \<and>
   decode_chart (write_chart [[2, 0, 1, 0], [1, 0, 0, 2]]) = Some [[2, 0, 1, 0], [1, 0, 0, 2]] \<and>
   midi_to_chart \<lparr>ticks_per_beat = 480, tracks = [[Msg note_on 0 61 64, Msg note_off 120 61 0]]\<rparr>
     [60, 61, 62, 63] 4 1 = Inr (Written (''00100000'' @ [CHR 0x0A] @ ''00000000'' @ [CHR 0x0A]))"
proof -
  have v: "valid_row [2, 0, 1, 0]" "valid_row [1, 0, 0, 2]"
    by (simp_all add: valid_row_def)
  then have all: "\<forall>row \<in> set [[2, 0, 1, 0], [1, 0, 0, 2]]. valid_row row"
    by simp
  have r: "render_line [2, 0, 1, 0] = ''10000100''"
    by code_simp
  have w: "write_chart [[2, 0, 1, 0], [1, 0, 0, 2]] =
      ''10000100'' @ [CHR 0x0A] @ ''01000010'' @ [CHR 0x0A]"
    by code_simp
  have m: "midi_to_chart
      \<lparr>ticks_per_beat = 480, tracks = [[Msg note_on 0 61 64, Msg note_off 120 61 0]]\<rparr>
      [60, 61, 62, 63] 4 1 = Inr (Written (''00100000'' @ [CHR 0x0A] @ ''00000000'' @ [CHR 0x0A]))"
    by code_simp
  note t = lines_of_eight_bits [of "[2, 0, 1, 0]" "[[2, 0, 1, 0], [1, 0, 0, 2]]"]
  from t v(1) have d1: "decode_line (render_line [2, 0, 1, 0]) = Some [2, 0, 1, 0]"
    by blast
  from t all have d2:
    "decode_chart (write_chart [[2, 0, 1, 0], [1, 0, 0, 2]]) = Some [[2, 0, 1, 0], [1, 0, 0, 2]]"
    by blast
  from v r d1 w d2 m show ?thesis
    by (intro conjI)
qed

end
